theory Spec2Isabelle
  imports Main
begin

section \<open>Gallery layout: the row packing of \<^verbatim>\<open>static/script.js\<close>\<close>

text \<open>
  A gallery photo as \<^verbatim>\<open>createLayout\<close> and \<^verbatim>\<open>buildRow\<close> read it: an id, the URL of
  the compressed image and an orientation string. Only the orientation decides the
  packing.
\<close>

record photo =
  photo_id :: nat
  photo_url :: string
  orientation :: string

text \<open>\<^verbatim>\<open>const MAX_ROW_UNITS = 4;\<close>\<close>

definition MAX_ROW_UNITS :: nat where
  "MAX_ROW_UNITS = 4"

text \<open>
  \<^verbatim>\<open>const nextPhotoUnits = (nextPhoto.orientation === 'horizontal') ? 2 : 1;\<close>
  Every orientation other than the string \<^verbatim>\<open>horizontal\<close> costs one unit.
\<close>

definition photoUnits :: "photo \<Rightarrow> nat" where
  "photoUnits p = (if orientation p = ''horizontal'' then 2 else 1)"

text \<open>
  The inner \<^verbatim>\<open>while (photoQueue.length > 0)\<close> loop of \<^verbatim>\<open>createLayout\<close>. Its state is the
  queue, the row built so far and the row's units; it returns the finished row and the
  queue that is left. The capacity is the closure constant \<^verbatim>\<open>MAX_ROW_UNITS\<close> of the
  source, taken as the first argument so that properties of the capacity can be stated.
  \<^verbatim>\<open>
    const nextPhoto = photoQueue[0];
    const nextPhotoUnits = ...;
    if (rowUnits > 0 && (rowUnits + nextPhotoUnits > MAX_ROW_UNITS)) { break; }
    rowUnits += nextPhotoUnits;
    rowPhotos.push(photoQueue.shift());
  \<close>
\<close>

fun fillRow :: "nat \<Rightarrow> photo list \<Rightarrow> photo list \<Rightarrow> nat \<Rightarrow> photo list \<times> photo list" where
  "fillRow maxRowUnits [] rowPhotos rowUnits = (rowPhotos, [])"
| "fillRow maxRowUnits (nextPhoto # photoQueue) rowPhotos rowUnits =
     (if rowUnits > 0 \<and> rowUnits + photoUnits nextPhoto > maxRowUnits
      then (rowPhotos, nextPhoto # photoQueue)
      else fillRow maxRowUnits photoQueue (rowPhotos @ [nextPhoto])
             (rowUnits + photoUnits nextPhoto))"

lemma fillRow_split:
  "fillRow c q r u = (r', q') \<Longrightarrow> r' @ q' = r @ q"
  by (induction q arbitrary: r u) (auto split: if_splits)

lemma fillRow_rest_le:
  "length (snd (fillRow c q r u)) \<le> length q"
  by (induction q arbitrary: r u) (auto simp: le_SucI)

lemma fillRow_consumes:
  assumes "q \<noteq> []" and "fillRow c q [] 0 = (r', q')"
  shows "length q' < length q"
proof (cases q)
  case Nil
  with assms(1) show ?thesis by simp
next
  case (Cons x xs)
  with assms(2) have "q' = snd (fillRow c xs [x] (photoUnits x))"
    by simp
  then have "length q' \<le> length xs"
    by (simp add: fillRow_rest_le)
  with Cons show ?thesis by simp
qed

text \<open>
  The outer loop of \<^verbatim>\<open>createLayout\<close>: while photos are queued, fill a row from an empty
  row with zero units and, \<^verbatim>\<open>if (rowPhotos.length > 0)\<close>, hand it to \<^verbatim>\<open>buildRow\<close>, which
  appends one row element to the gallery. The result is the list of rows handed to
  \<^verbatim>\<open>buildRow\<close>, in the order of the calls.
\<close>

function createLayoutWith :: "nat \<Rightarrow> photo list \<Rightarrow> photo list list" where
  "createLayoutWith maxRowUnits photoQueue =
     (if photoQueue = [] then []
      else (case fillRow maxRowUnits photoQueue [] 0 of
              (rowPhotos, rest) \<Rightarrow>
                (if rowPhotos \<noteq> [] then [rowPhotos] else [])
                  @ createLayoutWith maxRowUnits rest))"
  by pat_completeness auto
termination
proof (relation "measure (\<lambda>(c, q). length q)")
  fix maxRowUnits :: nat and photoQueue rowPhotos rest :: "photo list"
  assume "photoQueue \<noteq> []" and "(rowPhotos, rest) = fillRow maxRowUnits photoQueue [] 0"
  then have "length rest < length photoQueue"
    using fillRow_consumes [of photoQueue maxRowUnits rowPhotos rest] by simp
  then show "((maxRowUnits, rest), (maxRowUnits, photoQueue)) \<in> measure (\<lambda>(c, q). length q)"
    by simp
qed simp

declare createLayoutWith.simps [simp del]

text \<open>\<^verbatim>\<open>function createLayout(photos) { let photoQueue = [...photos]; ... }\<close>\<close>

definition createLayout :: "photo list \<Rightarrow> photo list list" where
  "createLayout photos = createLayoutWith MAX_ROW_UNITS photos"

text \<open>The units of a row, as \<^verbatim>\<open>rowUnits\<close> accumulates them.\<close>

definition rowTotal :: "photo list \<Rightarrow> nat" where
  "rowTotal rowPhotos = sum_list (map photoUnits rowPhotos)"

text \<open>
  What the inner loop keeps true of the row under construction: a row with zero units is
  empty, and a row that holds a photo costing more than the capacity holds nothing else
  and is already over the capacity.
\<close>

definition rowInv :: "nat \<Rightarrow> photo list \<Rightarrow> nat \<Rightarrow> bool" where
  "rowInv c r u =
     ((u = 0 \<longrightarrow> r = []) \<and> ((\<exists>p \<in> set r. c < photoUnits p) \<longrightarrow> length r = 1 \<and> c < u))"

text \<open>Photos of the two orientations the gallery data carries.\<close>

definition horizontalPhoto :: "nat \<Rightarrow> string \<Rightarrow> photo" where
  "horizontalPhoto i u = \<lparr>photo_id = i, photo_url = u, orientation = ''horizontal''\<rparr>"

definition verticalPhoto :: "nat \<Rightarrow> string \<Rightarrow> photo" where
  "verticalPhoto i u = \<lparr>photo_id = i, photo_url = u, orientation = ''vertical''\<rparr>"

section \<open>The rater: the vote state machine of \<^verbatim>\<open>static/rater_script.js\<close>\<close>

subsection \<open>Data\<close>

text \<open>
  The next-pair response \<^verbatim>\<open>{ image_a: {name, url}, image_b: {name, url} }\<close> as the script reads
  it.
\<close>

record photoRef =
  name :: string
  url :: string

record pair =
  image_a :: photoRef
  image_b :: photoRef

text \<open>The network calls the script issues: the three \<^verbatim>\<open>fetch\<close> calls and their bodies.\<close>

datatype request = GetNextPair | PostVote string string | PostUndo

text \<open>
  The script's closure state and the part of the page it drives:
  \<^item> \<^verbatim>\<open>currentPair\<close> (\<^verbatim>\<open>null\<close> and \<^verbatim>\<open>undefined\<close> are both \<open>None\<close>: the script only tests its
    truthiness), \<^verbatim>\<open>voteHistory\<close> (the last element is the top of the stack), \<^verbatim>\<open>totalVotes\<close>,
    \<^verbatim>\<open>isVoting\<close>;
  \<^item> \<^verbatim>\<open>imgA.src\<close>, \<^verbatim>\<open>imgB.src\<close> and \<^verbatim>\<open>undoButton.disabled\<close>;
  \<^item> the requests sent so far, in order, and, for each of the three async functions, how
    many of its invocations are suspended at their network round-trip.
  \<^verbatim>\<open>totalVotesSpan.textContent\<close> is written with \<^verbatim>\<open>totalVotes\<close> right after each change of
  \<^verbatim>\<open>totalVotes\<close> and never read again after start-up; it is not a field of its own.

  \<^verbatim>\<open>totalVotes\<close> is a JavaScript number, that is an IEEE 754 double. The script only ever
  holds an integer in it (\<^verbatim>\<open>parseInt\<close> yields an integer, and the script adds and subtracts
  one), so the field is the integer that the double stands for; it is taken to be finite.
  \<^verbatim>\<open>totalVotes++\<close> and \<^verbatim>\<open>totalVotes--\<close> round to the nearest double, ties to the even
  significand. Doubles hold every integer from \<open>- 2 ^ 53\<close> to \<open>2 ^ 53\<close>, every second one up to
  \<open>2 ^ 54\<close> in magnitude and at most every fourth beyond, so on an integer that a double
  can hold:
  \<^item> where the result is between \<open>- 2 ^ 53\<close> and \<open>2 ^ 53\<close> the operation is exact;
  \<^item> otherwise, below \<open>2 ^ 54\<close> in magnitude the exact result lies halfway between two
    doubles, the operand and the next but one integer, and the one whose half is even, that
    is the multiple of four, is taken;
  \<^item> from \<open>2 ^ 54\<close> on in magnitude the operand itself is the nearest double (at \<open>2 ^ 54\<close>
    and \<open>- 2 ^ 54\<close> it wins the tie, its significand being even).
  In particular the counter stays at \<open>2 ^ 53\<close> when incremented there.
\<close>

definition jsIncrement :: "int \<Rightarrow> int" where
  "jsIncrement n =
     (if - (2 ^ 53) \<le> n \<and> n < 2 ^ 53 then n + 1
      else if - (2 ^ 54) < n \<and> n < 2 ^ 54 then (if n mod 4 = 0 then n else n + 2)
      else n)"

definition jsDecrement :: "int \<Rightarrow> int" where
  "jsDecrement n =
     (if - (2 ^ 53) < n \<and> n \<le> 2 ^ 53 then n - 1
      else if - (2 ^ 54) < n \<and> n < 2 ^ 54 then (if n mod 4 = 0 then n else n - 2)
      else n)"

record rater =
  currentPair :: "pair option"
  voteHistory :: "pair list"
  totalVotes :: int
  isVoting :: bool
  imgA_src :: string
  imgB_src :: string
  undoDisabled :: bool
  requests :: "request list"
  pendingFetch :: nat
  pendingVote :: nat
  pendingUndo :: nat

definition loadingPlaceholder :: string where
  "loadingPlaceholder = ''https://placehold.co/800x600/333/555?text=Loading...''"

definition errorPlaceholder :: string where
  "errorPlaceholder = ''https://placehold.co/800x600/c0392b/ffffff?text=Error+Loading''"

subsection \<open>The async functions, one definition per synchronous segment\<close>

text \<open>
  The script runs on one event loop: a listener or a resumed async function runs without
  interruption up to its next \<^verbatim>\<open>await\<close>. Each async function awaits its \<^verbatim>\<open>fetch\<close>, then the
  parsing of the response (and \<^verbatim>\<open>fetchNextPair\<close> then the two preloads) without reading or
  writing any state in between, so its awaits are one suspension here: the function named
  after the source function is the segment before the suspension, and its \<open>_settled\<close>
  companion is the segment that runs when the round-trip has settled, given its outcome.

  \<^verbatim>\<open>fetchNextPair\<close> up to \<^verbatim>\<open>await fetch(url)\<close>: take the lock and show the loading
  placeholders.
\<close>

definition fetchNextPair :: "rater \<Rightarrow> rater" where
  "fetchNextPair s =
     s\<lparr>isVoting := True,
       imgA_src := loadingPlaceholder,
       imgB_src := loadingPlaceholder,
       requests := requests s @ [GetNextPair],
       pendingFetch := pendingFetch s + 1\<rparr>"

text \<open>
  The rest of \<^verbatim>\<open>fetchNextPair\<close>. \<open>Some data\<close>: the response was ok, parsed to \<open>data\<close>, and
  both images preloaded, so the pair is published. \<open>None\<close>: anything in the \<^verbatim>\<open>try\<close> block
  threw, and the \<^verbatim>\<open>catch\<close> block shows the error placeholders. The \<^verbatim>\<open>finally\<close> block releases
  the lock on both paths.
\<close>

definition fetchNextPair_settled :: "pair option \<Rightarrow> rater \<Rightarrow> rater" where
  "fetchNextPair_settled outcome s =
     (case outcome of
        Some data \<Rightarrow>
          s\<lparr>currentPair := Some data,
            imgA_src := url (image_a data),
            imgB_src := url (image_b data),
            isVoting := False,
            pendingFetch := pendingFetch s - 1\<rparr>
      | None \<Rightarrow>
          s\<lparr>imgA_src := errorPlaceholder,
            imgB_src := errorPlaceholder,
            isVoting := False,
            pendingFetch := pendingFetch s - 1\<rparr>)"

text \<open>
  \<^verbatim>\<open>sendVote\<close> up to \<^verbatim>\<open>await fetch('/api/rater/vote', ...)\<close>:
  \<^verbatim>\<open>if (isVoting || !currentPair) return; isVoting = true; voteHistory.push(currentPair);\<close>
\<close>

definition sendVote :: "string \<Rightarrow> string \<Rightarrow> rater \<Rightarrow> rater" where
  "sendVote winnerName loserName s =
     (if isVoting s then s
      else (case currentPair s of
              None \<Rightarrow> s
            | Some cp \<Rightarrow>
                s\<lparr>isVoting := True,
                  voteHistory := voteHistory s @ [cp],
                  requests := requests s @ [PostVote winnerName loserName],
                  pendingVote := pendingVote s + 1\<rparr>))"

text \<open>
  The rest of \<^verbatim>\<open>sendVote\<close>. \<open>True\<close>: \<^verbatim>\<open>data.success\<close> was truthy; the counter is incremented,
  the undo button enabled and \<^verbatim>\<open>fetchNextPair()\<close> called, which runs to its own suspension
  at once (nothing follows \<^verbatim>\<open>await fetchNextPair()\<close>). \<open>False\<close>: the request or the parsing
  threw, or \<^verbatim>\<open>data.success\<close> was falsy; the \<^verbatim>\<open>catch\<close> block pops the history (a pop of an
  empty array changes nothing) and releases the lock.
\<close>

definition sendVote_settled :: "bool \<Rightarrow> rater \<Rightarrow> rater" where
  "sendVote_settled success s =
     (if success
      then fetchNextPair
             (s\<lparr>totalVotes := jsIncrement (totalVotes s),
                undoDisabled := False,
                pendingVote := pendingVote s - 1\<rparr>)
      else s\<lparr>voteHistory := butlast (voteHistory s),
             isVoting := False,
             pendingVote := pendingVote s - 1\<rparr>)"

text \<open>
  \<^verbatim>\<open>handleUndo\<close> up to \<^verbatim>\<open>await fetch('/api/rater/undo', ...)\<close>:
  \<^verbatim>\<open>if (voteHistory.length === 0) return; undoButton.disabled = true;\<close>
\<close>

definition handleUndo :: "rater \<Rightarrow> rater" where
  "handleUndo s =
     (if voteHistory s = [] then s
      else s\<lparr>undoDisabled := True,
             requests := requests s @ [PostUndo],
             pendingUndo := pendingUndo s + 1\<rparr>)"

text \<open>
  The \<^verbatim>\<open>try\<close> block of \<^verbatim>\<open>handleUndo\<close> after the round-trip. On success the top of the
  history is popped and restored as the current pair, and the counter decremented. When
  the history is empty by then, \<^verbatim>\<open>pop()\<close> yields \<^verbatim>\<open>undefined\<close>, which is assigned to
  \<^verbatim>\<open>currentPair\<close> before \<^verbatim>\<open>lastPair.image_a\<close> throws into the \<^verbatim>\<open>catch\<close> block. On failure
  the \<^verbatim>\<open>catch\<close> block only logs.
\<close>

definition handleUndo_try :: "bool \<Rightarrow> rater \<Rightarrow> rater" where
  "handleUndo_try success s =
     (if success
      then (if voteHistory s = [] then s\<lparr>currentPair := None\<rparr>
            else s\<lparr>voteHistory := butlast (voteHistory s),
                   currentPair := Some (last (voteHistory s)),
                   imgA_src := url (image_a (last (voteHistory s))),
                   imgB_src := url (image_b (last (voteHistory s))),
                   totalVotes := jsDecrement (totalVotes s)\<rparr>)
      else s)"

text \<open>\<^verbatim>\<open>finally { if (voteHistory.length > 0) { undoButton.disabled = false; } }\<close>\<close>

definition handleUndo_finally :: "rater \<Rightarrow> rater" where
  "handleUndo_finally s = (if voteHistory s \<noteq> [] then s\<lparr>undoDisabled := False\<rparr> else s)"

definition handleUndo_settled :: "bool \<Rightarrow> rater \<Rightarrow> rater" where
  "handleUndo_settled success s =
     handleUndo_finally (handleUndo_try success (s\<lparr>pendingUndo := pendingUndo s - 1\<rparr>))"

subsection \<open>The listeners\<close>

text \<open>\<^verbatim>\<open>if (currentPair && !isVoting) { sendVote(currentPair.image_a.name, currentPair.image_b.name); }\<close>\<close>

definition wrapperA_click :: "rater \<Rightarrow> rater" where
  "wrapperA_click s =
     (case currentPair s of
        None \<Rightarrow> s
      | Some cp \<Rightarrow>
          if \<not> isVoting s then sendVote (name (image_a cp)) (name (image_b cp)) s else s)"

definition wrapperB_click :: "rater \<Rightarrow> rater" where
  "wrapperB_click s =
     (case currentPair s of
        None \<Rightarrow> s
      | Some cp \<Rightarrow>
          if \<not> isVoting s then sendVote (name (image_b cp)) (name (image_a cp)) s else s)"

text \<open>
  The \<^verbatim>\<open>keydown\<close> listener, on \<^verbatim>\<open>e.key\<close>:
  \<^verbatim>\<open>if (isVoting || !currentPair) return;\<close> and then the three keys.
\<close>

definition keydown :: "string \<Rightarrow> rater \<Rightarrow> rater" where
  "keydown key s =
     (if isVoting s then s
      else (case currentPair s of
              None \<Rightarrow> s
            | Some cp \<Rightarrow>
                if key = ''ArrowLeft'' then sendVote (name (image_a cp)) (name (image_b cp)) s
                else if key = ''ArrowRight'' then sendVote (name (image_b cp)) (name (image_a cp)) s
                else if key = ''Backspace'' \<and> \<not> undoDisabled s then handleUndo s
                else s))"

text \<open>
  \<^verbatim>\<open>undoButton.addEventListener('click', handleUndo)\<close>. The listener itself has no guard; a
  browser dispatches no click to a button whose \<^verbatim>\<open>disabled\<close> is set, which is how the
  script's \<^verbatim>\<open>undoButton.disabled = true\<close> keeps a second click out.
\<close>

definition undoButton_click :: "rater \<Rightarrow> rater" where
  "undoButton_click s = (if undoDisabled s then s else handleUndo s)"

subsection \<open>Events and runs\<close>

text \<open>
  What the event loop can deliver: the four user inputs, and the settling of a suspended
  round-trip with its outcome. A round-trip can only settle when one of its kind is
  suspended; \<open>step\<close> is \<open>None\<close> otherwise. Suspended invocations of the same function are
  interchangeable (they keep no local state that the rest of the function reads), so
  counting them is enough.
\<close>

datatype event =
    ClickA
  | ClickB
  | UndoClick
  | KeyDown string
  | FetchSettled "pair option"
  | VoteSettled bool
  | UndoSettled bool

fun step :: "rater \<Rightarrow> event \<Rightarrow> rater option" where
  "step s ClickA = Some (wrapperA_click s)"
| "step s ClickB = Some (wrapperB_click s)"
| "step s UndoClick = Some (undoButton_click s)"
| "step s (KeyDown key) = Some (keydown key s)"
| "step s (FetchSettled outcome) =
     (if pendingFetch s = 0 then None else Some (fetchNextPair_settled outcome s))"
| "step s (VoteSettled success) =
     (if pendingVote s = 0 then None else Some (sendVote_settled success s))"
| "step s (UndoSettled success) =
     (if pendingUndo s = 0 then None else Some (handleUndo_settled success s))"

fun run :: "rater \<Rightarrow> event list \<Rightarrow> rater option" where
  "run s [] = Some s"
| "run s (e # es) = (case step s e of None \<Rightarrow> None | Some s' \<Rightarrow> run s' es)"

text \<open>
  The \<^verbatim>\<open>DOMContentLoaded\<close> handler: the state declarations, then \<^verbatim>\<open>fetchNextPair()\<close>. The
  page markup is not part of the script, so what it provides is a parameter: \<open>n0\<close> is the
  value of \<^verbatim>\<open>parseInt(totalVotesSpan.textContent, 10) || 0\<close> and \<open>d0\<close> the initial
  \<^verbatim>\<open>disabled\<close> of the undo button. The images' initial sources are overwritten by
  \<^verbatim>\<open>fetchNextPair\<close> before anything can observe them.
\<close>

definition initState :: "int \<Rightarrow> bool \<Rightarrow> rater" where
  "initState n0 d0 =
     \<lparr>currentPair = None, voteHistory = [], totalVotes = n0, isVoting = False,
      imgA_src = [], imgB_src = [], undoDisabled = d0, requests = [],
      pendingFetch = 0, pendingVote = 0, pendingUndo = 0\<rparr>"

definition startState :: "int \<Rightarrow> bool \<Rightarrow> rater" where
  "startState n0 d0 = fetchNextPair (initState n0 d0)"

text \<open>The inputs that ask for a vote: a click on either image, or an arrow key.\<close>

fun isVoteAction :: "event \<Rightarrow> bool" where
  "isVoteAction ClickA = True"
| "isVoteAction ClickB = True"
| "isVoteAction (KeyDown key) = (key = ''ArrowLeft'' \<or> key = ''ArrowRight'')"
| "isVoteAction _ = False"

text \<open>Three pairs to run the machine on.\<close>

definition pairOne :: pair where
  "pairOne = \<lparr>image_a = \<lparr>name = ''a.jpg'', url = ''/img/a.avif''\<rparr>,
              image_b = \<lparr>name = ''b.jpg'', url = ''/img/b.avif''\<rparr>\<rparr>"

definition pairTwo :: pair where
  "pairTwo = \<lparr>image_a = \<lparr>name = ''c.jpg'', url = ''/img/c.avif''\<rparr>,
              image_b = \<lparr>name = ''d.jpg'', url = ''/img/d.avif''\<rparr>\<rparr>"

definition pairThree :: pair where
  "pairThree = \<lparr>image_a = \<lparr>name = ''e.jpg'', url = ''/img/e.avif''\<rparr>,
                image_b = \<lparr>name = ''f.jpg'', url = ''/img/f.avif''\<rparr>\<rparr>"

subsection \<open>The lock discipline\<close>

text \<open>
  The lock and the suspended invocations that hold it: \<^verbatim>\<open>isVoting\<close> is set exactly while one
  vote request or one next-pair fetch is outstanding, and never more than one of the two.
  \<^verbatim>\<open>handleUndo\<close> neither reads nor writes \<^verbatim>\<open>isVoting\<close>, so undo requests are not counted.
\<close>

definition lockInv :: "rater \<Rightarrow> bool" where
  "lockInv s = (pendingVote s + pendingFetch s = (if isVoting s then 1 else 0))"

text \<open>The inputs that the image and key listeners handle: any click on an image, any key.\<close>

fun isImageOrKey :: "event \<Rightarrow> bool" where
  "isImageOrKey ClickA = True"
| "isImageOrKey ClickB = True"
| "isImageOrKey (KeyDown key) = True"
| "isImageOrKey _ = False"

subsection \<open>Runs of successful votes\<close>

text \<open>
  One successful vote, as the events that make it up: the input that asks for the vote,
  the server's confirmation, and the settling of the next-pair fetch that the confirmation
  starts (with a new pair, or with a failure).
\<close>

fun voteCycle :: "event \<times> pair option \<Rightarrow> event list" where
  "voteCycle (e, outcome) = [e, VoteSettled True, FetchSettled outcome]"

subsection \<open>The server's view of the votes\<close>

text \<open>
  The specification's notion of a vote that "was confirmed by the server and not yet
  undone", kept beside the script's state and computed from the events alone, never from
  \<^verbatim>\<open>voteHistory\<close>: \<open>awaiting\<close> holds the pairs of the vote requests sent and not yet
  settled, oldest first, and \<open>confirmed\<close> the pairs of the votes that the server confirmed
  and that no confirmed undo has reversed, oldest first. A confirmed undo reverses the
  most recent confirmed vote.
\<close>

record ledger =
  confirmed :: "pair list"
  awaiting :: "pair list"

definition ledger0 :: ledger where
  "ledger0 = \<lparr>confirmed = [], awaiting = []\<rparr>"

text \<open>
  A user input sent a vote request exactly when one more vote is suspended after it; the
  vote is on the pair that was current when the input arrived.
\<close>

definition noteSent :: "rater \<Rightarrow> rater \<Rightarrow> ledger \<Rightarrow> ledger" where
  "noteSent s s' L =
     (case currentPair s of
        None \<Rightarrow> L
      | Some cp \<Rightarrow>
          if pendingVote s' = pendingVote s + 1 then L\<lparr>awaiting := awaiting L @ [cp]\<rparr> else L)"

fun ledger_step :: "rater \<Rightarrow> event \<Rightarrow> ledger \<Rightarrow> ledger" where
  "ledger_step s ClickA L = noteSent s (wrapperA_click s) L"
| "ledger_step s ClickB L = noteSent s (wrapperB_click s) L"
| "ledger_step s UndoClick L = L"
| "ledger_step s (KeyDown key) L = noteSent s (keydown key s) L"
| "ledger_step s (FetchSettled outcome) L = L"
| "ledger_step s (VoteSettled success) L =
     (case awaiting L of
        [] \<Rightarrow> L
      | p # ps \<Rightarrow>
          if success then L\<lparr>confirmed := confirmed L @ [p], awaiting := ps\<rparr>
          else L\<lparr>awaiting := ps\<rparr>)"
| "ledger_step s (UndoSettled success) L =
     (if success then L\<lparr>confirmed := butlast (confirmed L)\<rparr> else L)"

fun runLedger :: "rater \<Rightarrow> ledger \<Rightarrow> event list \<Rightarrow> (rater \<times> ledger) option" where
  "runLedger s L [] = Some (s, L)"
| "runLedger s L (e # es) =
     (case step s e of None \<Rightarrow> None | Some s' \<Rightarrow> runLedger s' (ledger_step s e L) es)"

text \<open>
  Runs in which a vote request and an undo request are never outstanding together: every
  state along the run has one of the two counts at zero.
\<close>

definition noOverlap :: "rater \<Rightarrow> bool" where
  "noOverlap s = (pendingVote s = 0 \<or> pendingUndo s = 0)"

fun serial :: "rater \<Rightarrow> event list \<Rightarrow> bool" where
  "serial s [] = noOverlap s"
| "serial s (e # es) =
     (noOverlap s \<and> (case step s e of None \<Rightarrow> True | Some s' \<Rightarrow> serial s' es))"

text \<open>
  How the script's history relates to the server's view: the confirmed votes, then the
  entries pushed ahead of confirmation for the votes in flight.
\<close>

definition ledgerInv :: "rater \<Rightarrow> ledger \<Rightarrow> bool" where
  "ledgerInv s L =
     (lockInv s \<and> voteHistory s = confirmed L @ awaiting L \<and>
      length (awaiting L) = pendingVote s)"

section \<open>Properties of the row packing\<close>

lemma photoUnits_pos: "0 < photoUnits p"
  by (simp add: photoUnits_def)

lemma createLayoutWith_Nil: "createLayoutWith c [] = []"
  by (simp add: createLayoutWith.simps)

lemma createLayoutWith_Cons:
  "createLayoutWith c (x # xs) =
     (case fillRow c xs [x] (photoUnits x) of
        (rowPhotos, rest) \<Rightarrow>
          (if rowPhotos \<noteq> [] then [rowPhotos] else []) @ createLayoutWith c rest)"
  by (subst createLayoutWith.simps) simp

lemma concat_createLayoutWith: "concat (createLayoutWith c q) = q"
proof (induction c q rule: createLayoutWith.induct)
  case (1 c q)
  show ?case
  proof (cases "q = []")
    case True
    then show ?thesis by (simp add: createLayoutWith_Nil)
  next
    case False
    obtain r rest where fr: "fillRow c q [] 0 = (r, rest)"
      by (cases "fillRow c q [] 0")
    from "1.IH" [OF False fr [symmetric]] have "concat (createLayoutWith c rest) = rest" .
    moreover from fillRow_split [OF fr] have "r @ rest = q" by simp
    ultimately show ?thesis
      using False fr by (subst createLayoutWith.simps) auto
  qed
qed

lemma rowInv_start: "rowInv c [] 0"
  by (simp add: rowInv_def)

lemma rowInv_push:
  assumes "rowInv c r u" and "\<not> (u > 0 \<and> u + photoUnits x > c)"
  shows "rowInv c (r @ [x]) (u + photoUnits x)"
proof (cases "u = 0")
  case True
  with assms(1) have "r = []" by (simp add: rowInv_def)
  with True show ?thesis by (simp add: rowInv_def photoUnits_pos)
next
  case False
  with assms(2) have fits: "u + photoUnits x \<le> c" by simp
  then have "\<not> c < photoUnits x" and "\<not> c < u" by simp_all
  with assms(1) have "\<not> (\<exists>p \<in> set (r @ [x]). c < photoUnits p)"
    by (auto simp: rowInv_def)
  then show ?thesis
    using photoUnits_pos [of x] unfolding rowInv_def by simp
qed

lemma fillRow_rowInv:
  "rowInv c r u \<Longrightarrow> fillRow c q r u = (r', q') \<Longrightarrow> \<exists>u'. rowInv c r' u'"
proof (induction q arbitrary: r u)
  case Nil
  then show ?case by auto
next
  case (Cons x q)
  show ?case
  proof (cases "u > 0 \<and> u + photoUnits x > c")
    case True
    with Cons.prems show ?thesis by auto
  next
    case False
    with Cons.prems(2) have "fillRow c q (r @ [x]) (u + photoUnits x) = (r', q')"
      by simp
    with Cons.IH [OF rowInv_push [OF Cons.prems(1) False]] show ?thesis .
  qed
qed

lemma rowInv_oversized:
  assumes "rowInv c r u" and "p \<in> set r" and "c < photoUnits p"
  shows "r = [p]"
proof -
  from assms have "length r = 1" by (auto simp: rowInv_def)
  then obtain y where "r = [y]" by (cases r) auto
  with assms(2) show ?thesis by simp
qed

lemma createLayoutWith_oversized:
  "row \<in> set (createLayoutWith c q) \<Longrightarrow> p \<in> set row \<Longrightarrow> c < photoUnits p \<Longrightarrow> row = [p]"
proof (induction c q rule: createLayoutWith.induct)
  case (1 c q)
  show ?case
  proof (cases "q = []")
    case True
    with "1.prems"(1) show ?thesis by (simp add: createLayoutWith_Nil)
  next
    case False
    obtain r rest where fr: "fillRow c q [] 0 = (r, rest)"
      by (cases "fillRow c q [] 0")
    from "1.prems"(1) False fr have "row = r \<or> row \<in> set (createLayoutWith c rest)"
      by (subst (asm) createLayoutWith.simps) (auto split: if_splits)
    then show ?thesis
    proof
      assume "row = r"
      moreover from fillRow_rowInv [OF rowInv_start fr] obtain u' where "rowInv c r u'" ..
      ultimately show ?thesis
        using rowInv_oversized "1.prems"(2,3) by blast
    next
      assume "row \<in> set (createLayoutWith c rest)"
      from "1.IH" [OF False fr [symmetric] this "1.prems"(2,3)] show ?thesis .
    qed
  qed
qed

lemma photoUnits_horizontalPhoto: "photoUnits (horizontalPhoto i u) = 2"
  by (simp add: photoUnits_def horizontalPhoto_def)

lemma photoUnits_verticalPhoto: "photoUnits (verticalPhoto i u) = 1"
  by (simp add: photoUnits_def verticalPhoto_def)

text \<open>
  Claim C9. With the capacity \<^verbatim>\<open>MAX_ROW_UNITS = 4\<close> and the costs horizontal = 2 and
  vertical = 1, \<^verbatim>\<open>createLayout\<close> applied to a horizontal, two vertical, a horizontal and a
  vertical photo (whatever their ids and URLs) builds exactly two rows, the first with the
  first three photos and the second with the last two; their unit totals are 4 and 3.
\<close>

theorem createLayout_HVVHV:
  "MAX_ROW_UNITS = 4 \<and>
   createLayout [horizontalPhoto i1 u1, verticalPhoto i2 u2, verticalPhoto i3 u3,
                 horizontalPhoto i4 u4, verticalPhoto i5 u5]
     = [[horizontalPhoto i1 u1, verticalPhoto i2 u2, verticalPhoto i3 u3],
        [horizontalPhoto i4 u4, verticalPhoto i5 u5]] \<and>
   map rowTotal
     (createLayout [horizontalPhoto i1 u1, verticalPhoto i2 u2, verticalPhoto i3 u3,
                    horizontalPhoto i4 u4, verticalPhoto i5 u5]) = [4, 3]"
  by (simp add: createLayout_def MAX_ROW_UNITS_def createLayoutWith_Cons createLayoutWith_Nil
      photoUnits_horizontalPhoto photoUnits_verticalPhoto rowTotal_def)

text \<open>
  Claim C10. For every input sequence of photos and every capacity, the concatenation of
  the rows that the row packing builds is the input sequence: no photo is dropped,
  duplicated or reordered. This holds in particular for \<^verbatim>\<open>createLayout\<close>, which packs with
  the capacity \<^verbatim>\<open>MAX_ROW_UNITS\<close>. A photo whose unit cost alone exceeds the capacity is the
  sole element of the row that holds it.
\<close>

theorem createLayout_concat_and_oversized:
  "concat (createLayoutWith c photos) = photos \<and>
   concat (createLayout photos) = photos \<and>
   (\<forall>row \<in> set (createLayoutWith c photos).
      \<forall>p \<in> set row. c < photoUnits p \<longrightarrow> row = [p])"
  using createLayoutWith_oversized [of _ c photos]
  by (simp add: concat_createLayoutWith createLayout_def)

theorem createLayout_concat_and_oversized_witness:
  "createLayoutWith 1 [verticalPhoto 1 ''a'', horizontalPhoto 2 ''b'', verticalPhoto 3 ''c'']
     = [[verticalPhoto 1 ''a''], [horizontalPhoto 2 ''b''], [verticalPhoto 3 ''c'']] \<and>
   1 < photoUnits (horizontalPhoto 2 ''b'') \<and>
   concat (createLayoutWith 1
     [verticalPhoto 1 ''a'', horizontalPhoto 2 ''b'', verticalPhoto 3 ''c''])
     = [verticalPhoto 1 ''a'', horizontalPhoto 2 ''b'', verticalPhoto 3 ''c'']"
  using createLayout_concat_and_oversized
    [of 1 "[verticalPhoto 1 ''a'', horizontalPhoto 2 ''b'', verticalPhoto 3 ''c'']"]
  by (simp add: createLayoutWith_Cons createLayoutWith_Nil
      photoUnits_horizontalPhoto photoUnits_verticalPhoto)

section \<open>Properties of the rater\<close>

lemmas rater_defs =
  fetchNextPair_def fetchNextPair_settled_def sendVote_def sendVote_settled_def
  handleUndo_def handleUndo_try_def handleUndo_finally_def handleUndo_settled_def
  wrapperA_click_def wrapperB_click_def keydown_def undoButton_click_def

lemmas run_defs =
  startState_def initState_def rater_defs jsIncrement_def jsDecrement_def
  pairOne_def pairTwo_def pairThree_def

subsection \<open>The counter's arithmetic\<close>

lemma jsIncrement_exact: "- (2 ^ 53) \<le> n \<Longrightarrow> n < 2 ^ 53 \<Longrightarrow> jsIncrement n = n + 1"
  by (simp add: jsIncrement_def)

lemma jsDecrement_exact: "- (2 ^ 53) < n \<Longrightarrow> n \<le> 2 ^ 53 \<Longrightarrow> jsDecrement n = n - 1"
  by (simp add: jsDecrement_def)

lemma jsIncrement_saturates: "jsIncrement (2 ^ 53) = 2 ^ 53"
  by (simp add: jsIncrement_def)

lemma jsDecrement_after_saturation: "jsDecrement (jsIncrement (2 ^ 53)) = 2 ^ 53 - 1"
  by (simp add: jsIncrement_def jsDecrement_def)

subsection \<open>The lock\<close>

lemma lockInv_start: "lockInv (startState n0 d0)"
  by (simp add: lockInv_def startState_def initState_def fetchNextPair_def)

lemma lockInv_step: "lockInv s \<Longrightarrow> step s e = Some s' \<Longrightarrow> lockInv s'"
  by (cases e) (auto simp: lockInv_def rater_defs split: option.splits if_splits)

lemma lockInv_run: "lockInv s \<Longrightarrow> run s es = Some s' \<Longrightarrow> lockInv s'"
proof (induction es arbitrary: s)
  case Nil
  then show ?case by simp
next
  case (Cons e es)
  then show ?case
    by (auto split: option.splits dest: lockInv_step)
qed

lemma isVoteAction_rejected:
  "isVoting s \<Longrightarrow> isVoteAction e \<Longrightarrow> step s e = Some s"
  by (cases e) (auto simp: rater_defs split: option.splits)

lemma lock_release_events:
  assumes "isVoting s" and "step s e = Some s'" and "\<not> isVoting s'"
  shows "(\<exists>outcome. e = FetchSettled outcome) \<or> e = VoteSettled False"
  using assms by (cases e) (auto simp: rater_defs split: option.splits if_splits)

text \<open>
  Claim C1, as amended. In every state that any sequence of user events and settled
  round-trips reaches from start-up, at most one vote request is in flight, a vote
  request and a next-pair fetch are never in flight together, and while a vote request is
  in flight the Backspace key starts no undo. (Undo requests do not take the lock: the
  claim's second half, that a vote and an undo request never overlap, fails, as the run
  after the next heading shows.)
\<close>

theorem one_vote_in_flight:
  assumes "run (startState n0 d0) es = Some s"
  shows "pendingVote s \<le> 1 \<and> pendingVote s + pendingFetch s \<le> 1 \<and>
         (0 < pendingVote s \<longrightarrow> step s (KeyDown ''Backspace'') = Some s)"
proof -
  from lockInv_run [OF lockInv_start assms] have inv: "lockInv s" .
  then have "pendingVote s + pendingFetch s \<le> 1"
    by (simp add: lockInv_def split: if_splits)
  moreover have "step s (KeyDown ''Backspace'') = Some s" if "0 < pendingVote s"
    using inv that by (simp add: lockInv_def keydown_def split: if_splits)
  ultimately show ?thesis by simp
qed

theorem one_vote_in_flight_witness:
  "\<exists>s. run (startState 0 True) [FetchSettled (Some pairOne), ClickA] = Some s \<and>
       pendingVote s = 1 \<and> pendingVote s + pendingFetch s \<le> 1 \<and>
       step s (KeyDown ''Backspace'') = Some s"
proof -
  obtain s where r: "run (startState 0 True) [FetchSettled (Some pairOne), ClickA] = Some s"
    and v: "pendingVote s = 1"
    by (simp add: run_defs)
  from one_vote_in_flight [OF r] v show ?thesis
    using r by simp
qed

text \<open>
  Claim C1 as stated fails. After one completed vote the undo button is enabled; a click
  on it starts an undo request, and a click on an image while that request is outstanding
  starts a vote request, since \<^verbatim>\<open>handleUndo\<close> leaves \<^verbatim>\<open>isVoting\<close> alone. Both requests are
  then in flight.
\<close>

theorem vote_and_undo_overlap:
  "map_option pendingVote
     (run (startState 0 True)
        [FetchSettled (Some pairOne), ClickA, VoteSettled True, FetchSettled (Some pairTwo),
         UndoClick, ClickB]) = Some 1 \<and>
   map_option pendingUndo
     (run (startState 0 True)
        [FetchSettled (Some pairOne), ClickA, VoteSettled True, FetchSettled (Some pairTwo),
         UndoClick, ClickB]) = Some 1"
  by (simp add: run_defs)

text \<open>
  Claim C5. In every reachable state in which a vote request or the next-pair fetch that
  follows a confirmed vote is outstanding, the lock is set, \<^verbatim>\<open>sendVote\<close> returns at once,
  and every click or arrow key leaves the state as it is. Only the settling of a fetch or
  the failure of the vote releases the lock, and the confirmation of the vote leads in one
  uninterrupted segment to a state where the fetch is outstanding and the lock still set:
  between the beginning of a successful vote and the settling of its fetch there is no
  state with the lock released.
\<close>

theorem lock_held_until_fetch_settles:
  assumes "run (startState n0 d0) es = Some s"
    and "0 < pendingVote s \<or> 0 < pendingFetch s"
  shows "isVoting s \<and>
         (\<forall>w l. sendVote w l s = s) \<and>
         (\<forall>e. isVoteAction e \<longrightarrow> step s e = Some s) \<and>
         (\<forall>e s'. step s e = Some s' \<and> \<not> isVoting s' \<longrightarrow>
            (\<exists>outcome. e = FetchSettled outcome) \<or> e = VoteSettled False) \<and>
         (0 < pendingVote s \<longrightarrow>
            (\<exists>s'. step s (VoteSettled True) = Some s' \<and> isVoting s' \<and>
               pendingVote s' = 0 \<and> pendingFetch s' = 1))"
proof -
  from lockInv_run [OF lockInv_start assms(1)] have inv: "lockInv s" .
  with assms(2) have locked: "isVoting s"
    by (auto simp: lockInv_def split: if_splits)
  have "sendVote w l s = s" for w l
    using locked by (simp add: sendVote_def)
  moreover have "\<forall>e. isVoteAction e \<longrightarrow> step s e = Some s"
    using locked by (simp add: isVoteAction_rejected)
  moreover have "\<forall>e s'. step s e = Some s' \<and> \<not> isVoting s' \<longrightarrow>
      (\<exists>outcome. e = FetchSettled outcome) \<or> e = VoteSettled False"
    using locked lock_release_events by blast
  moreover have "\<exists>s'. step s (VoteSettled True) = Some s' \<and> isVoting s' \<and>
      pendingVote s' = 0 \<and> pendingFetch s' = 1" if "0 < pendingVote s"
    using inv locked that by (simp add: lockInv_def sendVote_settled_def fetchNextPair_def)
  ultimately show ?thesis
    using locked by blast
qed

theorem lock_held_until_fetch_settles_witness:
  "\<exists>s. run (startState 0 True) [FetchSettled (Some pairOne), ClickA] = Some s \<and>
       0 < pendingVote s \<and> isVoting s \<and> step s ClickB = Some s \<and>
       (\<exists>s'. step s (VoteSettled True) = Some s' \<and> isVoting s' \<and> pendingFetch s' = 1)"
proof -
  obtain s where r: "run (startState 0 True) [FetchSettled (Some pairOne), ClickA] = Some s"
    and v: "0 < pendingVote s"
    by (simp add: run_defs)
  from lock_held_until_fetch_settles [OF r] v
  have "isVoting s" and "\<forall>e. isVoteAction e \<longrightarrow> step s e = Some s"
    and "\<exists>s'. step s (VoteSettled True) = Some s' \<and> isVoting s' \<and>
           pendingVote s' = 0 \<and> pendingFetch s' = 1"
    by blast+
  then show ?thesis
    using r v isVoteAction.simps(2) by blast
qed

subsection \<open>Votes and undos\<close>

lemma isImageOrKey_rejected:
  "isVoting s \<Longrightarrow> isImageOrKey e \<Longrightarrow> step s e = Some s"
  by (cases e) (auto simp: rater_defs split: option.splits)

lemma run_append: "run s (es @ fs) = (case run s es of None \<Rightarrow> None | Some s' \<Rightarrow> run s' fs)"
  by (induction es arbitrary: s) (auto split: option.splits)

lemma run_rejected:
  "isVoting s \<Longrightarrow> list_all isImageOrKey us \<Longrightarrow> run s us = Some s"
  by (induction us) (auto simp: isImageOrKey_rejected)

lemma vote_accepted:
  assumes "currentPair s = Some cp" and "\<not> isVoting s" and "isVoteAction e"
  shows "\<exists>w l. step s e = Some (s\<lparr>isVoting := True, voteHistory := voteHistory s @ [cp],
            requests := requests s @ [PostVote w l], pendingVote := pendingVote s + 1\<rparr>)"
  using assms by (cases e) (auto simp: rater_defs)

text \<open>
  Claim C4. From every state with a current pair and the lock free, a vote attempt (a
  click on an image or an arrow key) whose request then fails, whatever clicks and key
  presses arrive while it is in flight, ends in a state with the history (and so its
  length), the vote counter, the current pair and both displayed images as they were
  before the attempt, and with the lock released: the same input then starts a new vote
  request.
\<close>

theorem failed_vote_rolled_back:
  assumes "currentPair s = Some cp" and "\<not> isVoting s" and "isVoteAction e"
    and "list_all isImageOrKey us"
  shows "\<exists>s'. run s (e # us @ [VoteSettled False]) = Some s' \<and>
           voteHistory s' = voteHistory s \<and>
           length (voteHistory s') = length (voteHistory s) \<and>
           totalVotes s' = totalVotes s \<and>
           currentPair s' = currentPair s \<and>
           imgA_src s' = imgA_src s \<and> imgB_src s' = imgB_src s \<and>
           \<not> isVoting s' \<and> pendingVote s' = pendingVote s \<and>
           (\<exists>s''. step s' e = Some s'' \<and> pendingVote s'' = pendingVote s' + 1)"
proof -
  from vote_accepted [OF assms(1-3)] obtain w l where
    st: "step s e = Some (s\<lparr>isVoting := True, voteHistory := voteHistory s @ [cp],
            requests := requests s @ [PostVote w l], pendingVote := pendingVote s + 1\<rparr>)"
    (is "_ = Some ?s1") by blast
  have "run ?s1 us = Some ?s1"
    using assms(4) by (simp add: run_rejected)
  then have r: "run s (e # us @ [VoteSettled False]) = Some (sendVote_settled False ?s1)"
    using st by (simp add: run_append)
  let ?s' = "sendVote_settled False ?s1"
  have same: "currentPair ?s' = Some cp" "\<not> isVoting ?s'"
    using assms(1) by (simp_all add: sendVote_settled_def)
  from vote_accepted [OF same assms(3)]
  have "\<exists>s''. step ?s' e = Some s'' \<and> pendingVote s'' = pendingVote ?s' + 1"
    by auto
  then show ?thesis
    using r assms(1) by (simp add: sendVote_settled_def)
qed

theorem failed_vote_rolled_back_witness:
  "\<exists>s s'. run (startState 3 True) [FetchSettled (Some pairOne)] = Some s \<and>
     currentPair s = Some pairOne \<and> \<not> isVoting s \<and>
     run s [ClickA, KeyDown ''ArrowRight'', VoteSettled False] = Some s' \<and>
     voteHistory s' = [] \<and> totalVotes s' = 3 \<and> currentPair s' = Some pairOne \<and>
     \<not> isVoting s'"
proof -
  obtain s where r: "run (startState 3 True) [FetchSettled (Some pairOne)] = Some s"
    and c: "currentPair s = Some pairOne" and l: "\<not> isVoting s"
    and h: "voteHistory s = []" and t: "totalVotes s = 3"
    by (simp add: run_defs)
  from failed_vote_rolled_back [OF c l, of ClickA "[KeyDown ''ArrowRight'']"]
  show ?thesis
    using r c l h t by (auto simp del: run.simps)
qed

text \<open>
  Claim C7, as amended. From every state with current pair \<open>cp\<close> and the lock free, let a
  vote on \<open>cp\<close> be confirmed and its next-pair fetch settle (either way), with nothing but
  clicks on the images and key presses arriving in between (the lock rejects them all), so
  that no undo request starts or settles between the beginning of the vote and the undo.
  An undo (button or Backspace) that the server then confirms pops exactly the one entry
  that the vote pushed, makes \<open>cp\<close> the current pair and shows its two images, sends no
  next-pair request, applies \<^verbatim>\<open>totalVotes--\<close> to the counter, which decrements it by one
  whenever the counter is above \<open>- 2 ^ 53\<close> and at most \<open>2 ^ 53\<close>, and leaves the undo button
  disabled exactly when the history is empty.
\<close>

theorem undo_restores_voted_pair:
  assumes "currentPair s = Some cp" and "\<not> isVoting s" and "isVoteAction e"
    and "list_all isImageOrKey us1" and "list_all isImageOrKey us2"
    and "u = UndoClick \<or> u = KeyDown ''Backspace''"
  shows "\<exists>s1 s2.
           run s (e # us1 @ VoteSettled True # us2 @ [FetchSettled outcome]) = Some s1 \<and>
           voteHistory s1 = voteHistory s @ [cp] \<and>
           run s1 [u, UndoSettled True] = Some s2 \<and>
           voteHistory s2 = butlast (voteHistory s1) \<and>
           voteHistory s2 = voteHistory s \<and>
           currentPair s2 = Some cp \<and>
           imgA_src s2 = url (image_a cp) \<and> imgB_src s2 = url (image_b cp) \<and>
           totalVotes s2 = jsDecrement (totalVotes s1) \<and>
           (- (2 ^ 53) < totalVotes s1 \<and> totalVotes s1 \<le> 2 ^ 53 \<longrightarrow>
              totalVotes s2 = totalVotes s1 - 1) \<and>
           (undoDisabled s2 \<longleftrightarrow> voteHistory s2 = []) \<and>
           pendingFetch s2 = pendingFetch s1 \<and>
           requests s2 = requests s1 @ [PostUndo]"
proof -
  from vote_accepted [OF assms(1-3)] obtain w l where
    st: "step s e = Some (s\<lparr>isVoting := True, voteHistory := voteHistory s @ [cp],
            requests := requests s @ [PostVote w l], pendingVote := pendingVote s + 1\<rparr>)"
    (is "_ = Some ?sv") by blast
  let ?sc = "sendVote_settled True ?sv"
  let ?s1 = "fetchNextPair_settled outcome ?sc"
  have a: "run ?sv us1 = Some ?sv"
    using assms(4) by (simp add: run_rejected)
  have sv: "step ?sv (VoteSettled True) = Some ?sc"
    by simp
  have lc: "isVoting ?sc" and pf: "pendingFetch ?sc \<noteq> 0"
    by (simp_all add: sendVote_settled_def fetchNextPair_def)
  have b: "run ?sc us2 = Some ?sc"
    using lc assms(5) by (rule run_rejected)
  have sf: "step ?sc (FetchSettled outcome) = Some ?s1"
    using pf by simp
  have "run ?sv (us1 @ VoteSettled True # us2 @ [FetchSettled outcome])
      = run ?sc (us2 @ [FetchSettled outcome])"
    using a sv by (simp add: run_append del: step.simps)
  also have "\<dots> = Some ?s1"
    using b sf by (simp add: run_append del: step.simps)
  finally have r1: "run s (e # us1 @ VoteSettled True # us2 @ [FetchSettled outcome]) = Some ?s1"
    using st by (simp del: step.simps)
  have f1: "voteHistory ?s1 = voteHistory s @ [cp]"
    "\<not> undoDisabled ?s1" "\<not> isVoting ?s1" "currentPair ?s1 \<noteq> None"
    using assms(1)
    by (simp_all add: sendVote_settled_def fetchNextPair_def fetchNextPair_settled_def
        split: option.splits)
  have su: "step ?s1 u = Some (handleUndo ?s1)"
    using assms(6) f1 by (auto simp: undoButton_click_def keydown_def)
  let ?s2 = "handleUndo_settled True (handleUndo ?s1)"
  have r2: "run ?s1 [u, UndoSettled True] = Some ?s2"
    using su f1(1) by (simp add: handleUndo_def)
  have f2: "voteHistory ?s2 = voteHistory s" "currentPair ?s2 = Some cp"
    "imgA_src ?s2 = url (image_a cp)" "imgB_src ?s2 = url (image_b cp)"
    "totalVotes ?s2 = jsDecrement (totalVotes ?s1)"
    "undoDisabled ?s2 \<longleftrightarrow> voteHistory s = []"
    "pendingFetch ?s2 = pendingFetch ?s1" "requests ?s2 = requests ?s1 @ [PostUndo]"
    using f1(1)
    by (simp_all add: handleUndo_def handleUndo_settled_def handleUndo_try_def
        handleUndo_finally_def)
  have f3: "totalVotes ?s2 = totalVotes ?s1 - 1"
    if "- (2 ^ 53) < totalVotes ?s1 \<and> totalVotes ?s1 \<le> 2 ^ 53"
    using that f2(5) by (simp only: jsDecrement_exact)
  show ?thesis
    using r1 r2 f1(1) f2 f3 by (intro exI [of _ ?s1] exI [of _ ?s2]) simp
qed

theorem undo_restores_voted_pair_witness:
  "\<exists>s s1 s2. run (startState 3 True) [FetchSettled (Some pairOne)] = Some s \<and>
     currentPair s = Some pairOne \<and> \<not> isVoting s \<and>
     run s [ClickB, KeyDown ''Backspace'', VoteSettled True, ClickA,
            FetchSettled (Some pairTwo)] = Some s1 \<and>
     voteHistory s1 = [pairOne] \<and> totalVotes s1 = 4 \<and>
     run s1 [UndoClick, UndoSettled True] = Some s2 \<and>
     voteHistory s2 = [] \<and> currentPair s2 = Some pairOne \<and> totalVotes s2 = 3 \<and>
     undoDisabled s2"
proof -
  obtain s where r: "run (startState 3 True) [FetchSettled (Some pairOne)] = Some s"
    and c: "currentPair s = Some pairOne" and l: "\<not> isVoting s"
    and h: "voteHistory s = []"
    by (simp add: run_defs)
  have t: "\<And>s1. run s [ClickB, KeyDown ''Backspace'', VoteSettled True, ClickA,
            FetchSettled (Some pairTwo)] = Some s1 \<Longrightarrow> totalVotes s1 = 4"
    using r by (auto simp: run_defs)
  from undo_restores_voted_pair
    [OF c l, of ClickB "[KeyDown ''Backspace'']" "[ClickA]" UndoClick "Some pairTwo"]
  have "\<exists>s1 s2.
      run s [ClickB, KeyDown ''Backspace'', VoteSettled True, ClickA,
             FetchSettled (Some pairTwo)] = Some s1 \<and>
      voteHistory s1 = voteHistory s @ [pairOne] \<and>
      run s1 [UndoClick, UndoSettled True] = Some s2 \<and>
      voteHistory s2 = voteHistory s \<and> currentPair s2 = Some pairOne \<and>
      totalVotes s2 = jsDecrement (totalVotes s1) \<and>
      (undoDisabled s2 \<longleftrightarrow> voteHistory s2 = [])"
    by (auto simp del: run.simps)
  then obtain s1 s2 where
    r1: "run s [ClickB, KeyDown ''Backspace'', VoteSettled True, ClickA,
            FetchSettled (Some pairTwo)] = Some s1"
    and f: "voteHistory s1 = voteHistory s @ [pairOne]"
      "run s1 [UndoClick, UndoSettled True] = Some s2"
      "voteHistory s2 = voteHistory s" "currentPair s2 = Some pairOne"
      "totalVotes s2 = jsDecrement (totalVotes s1)"
      "undoDisabled s2 \<longleftrightarrow> voteHistory s2 = []"
    by blast
  from t [OF r1] f(5) have "totalVotes s1 = 4" and "totalVotes s2 = 3"
    by (simp_all add: jsDecrement_def)
  with r c l h r1 f show ?thesis
    by (auto simp del: run.simps)
qed

text \<open>
  Claim C7 as stated fails. After one confirmed vote on the first pair the second pair is on
  display. A click on the undo button starts an undo; a click on an image, accepted since
  \<^verbatim>\<open>handleUndo\<close> leaves the lock alone, starts a vote on the second pair and pushes it. The
  undo is confirmed first and pops that entry; then the vote is confirmed and the third
  pair loads. The most recent operation is now a successful vote on the second pair, and
  nothing else is outstanding, yet a confirmed undo restores the first pair.
\<close>

theorem undo_after_overlap_restores_older_pair:
  "map_option currentPair
     (run (startState 0 True)
        [FetchSettled (Some pairOne), ClickA, VoteSettled True, FetchSettled (Some pairTwo),
         UndoClick]) = Some (Some pairTwo) \<and>
   map_option requests
     (run (startState 0 True)
        [FetchSettled (Some pairOne), ClickA, VoteSettled True, FetchSettled (Some pairTwo),
         UndoClick, ClickB, UndoSettled True, VoteSettled True, FetchSettled (Some pairThree)])
     = Some [GetNextPair, PostVote ''a.jpg'' ''b.jpg'', GetNextPair, PostUndo,
             PostVote ''d.jpg'' ''c.jpg'', GetNextPair] \<and>
   map_option pendingUndo
     (run (startState 0 True)
        [FetchSettled (Some pairOne), ClickA, VoteSettled True, FetchSettled (Some pairTwo),
         UndoClick, ClickB, UndoSettled True, VoteSettled True, FetchSettled (Some pairThree)])
     = Some 0 \<and>
   map_option currentPair
     (run (startState 0 True)
        [FetchSettled (Some pairOne), ClickA, VoteSettled True, FetchSettled (Some pairTwo),
         UndoClick, ClickB, UndoSettled True, VoteSettled True, FetchSettled (Some pairThree),
         UndoClick, UndoSettled True]) = Some (Some pairOne) \<and>
   pairOne \<noteq> pairTwo"
  by (simp add: run_defs)

text \<open>
  Claim C8. From every state with a non-empty history, an undo whose request fails leaves
  the history, the vote counter, the current pair and the displayed images as they were,
  and ends with the undo button enabled. This is what \<^verbatim>\<open>handleUndo\<close> does, and what a click
  on the enabled undo button, or Backspace when the key listener lets it through, does.
\<close>

theorem failed_undo_leaves_state:
  assumes "voteHistory s \<noteq> []"
  shows "voteHistory (handleUndo_settled False (handleUndo s)) = voteHistory s \<and>
         totalVotes (handleUndo_settled False (handleUndo s)) = totalVotes s \<and>
         currentPair (handleUndo_settled False (handleUndo s)) = currentPair s \<and>
         imgA_src (handleUndo_settled False (handleUndo s)) = imgA_src s \<and>
         imgB_src (handleUndo_settled False (handleUndo s)) = imgB_src s \<and>
         \<not> undoDisabled (handleUndo_settled False (handleUndo s)) \<and>
         (\<not> undoDisabled s \<longrightarrow>
            run s [UndoClick, UndoSettled False]
              = Some (handleUndo_settled False (handleUndo s))) \<and>
         (\<not> undoDisabled s \<and> \<not> isVoting s \<and> currentPair s \<noteq> None \<longrightarrow>
            run s [KeyDown ''Backspace'', UndoSettled False]
              = Some (handleUndo_settled False (handleUndo s)))"
proof -
  have fields: "voteHistory (handleUndo_settled False (handleUndo s)) = voteHistory s"
    "totalVotes (handleUndo_settled False (handleUndo s)) = totalVotes s"
    "currentPair (handleUndo_settled False (handleUndo s)) = currentPair s"
    "imgA_src (handleUndo_settled False (handleUndo s)) = imgA_src s"
    "imgB_src (handleUndo_settled False (handleUndo s)) = imgB_src s"
    "\<not> undoDisabled (handleUndo_settled False (handleUndo s))"
    using assms
    by (simp_all add: handleUndo_def handleUndo_settled_def handleUndo_try_def
        handleUndo_finally_def)
  have pending: "pendingUndo (handleUndo s) \<noteq> 0"
    using assms by (simp add: handleUndo_def)
  have click: "run s [UndoClick, UndoSettled False]
      = Some (handleUndo_settled False (handleUndo s))" if "\<not> undoDisabled s"
    using that pending by (simp add: undoButton_click_def)
  have key: "run s [KeyDown ''Backspace'', UndoSettled False]
      = Some (handleUndo_settled False (handleUndo s))"
    if "\<not> undoDisabled s \<and> \<not> isVoting s \<and> currentPair s \<noteq> None"
    using that pending by (auto simp: keydown_def)
  from fields click key show ?thesis by blast
qed

theorem failed_undo_leaves_state_witness:
  "\<exists>s s'. run (startState 3 True)
       [FetchSettled (Some pairOne), ClickA, VoteSettled True, FetchSettled (Some pairTwo)]
       = Some s \<and>
     voteHistory s = [pairOne] \<and> \<not> undoDisabled s \<and>
     run s [UndoClick, UndoSettled False] = Some s' \<and>
     voteHistory s' = [pairOne] \<and> totalVotes s' = 4 \<and> currentPair s' = Some pairTwo \<and>
     \<not> undoDisabled s'"
proof -
  obtain s where r: "run (startState 3 True)
       [FetchSettled (Some pairOne), ClickA, VoteSettled True, FetchSettled (Some pairTwo)]
       = Some s"
    and h: "voteHistory s = [pairOne]" and d: "\<not> undoDisabled s"
    and t: "totalVotes s = 4" and c: "currentPair s = Some pairTwo"
    by (simp add: run_defs)
  from h have ne: "voteHistory s \<noteq> []" by simp
  from failed_undo_leaves_state [OF ne] show ?thesis
    using r h d t c by (auto simp del: run.simps)
qed

text \<open>
  Claim C6, as amended. When a next-pair fetch fails, both images show the error
  placeholder, the current pair stays what it was and the lock is released. If no pair
  has been loaded yet (the fetch at start-up failed), every click on an image and every
  key press leaves the state as it is.
\<close>

theorem fetch_error_placeholders:
  assumes "0 < pendingFetch s"
  shows "\<exists>s'. step s (FetchSettled None) = Some s' \<and>
           imgA_src s' = errorPlaceholder \<and> imgB_src s' = errorPlaceholder \<and>
           currentPair s' = currentPair s \<and> \<not> isVoting s' \<and>
           (currentPair s = None \<longrightarrow>
              (\<forall>e. isImageOrKey e \<longrightarrow> step s' e = Some s'))"
proof -
  let ?s' = "fetchNextPair_settled None s"
  have "step ?s' e = Some ?s'" if "currentPair s = None" and "isImageOrKey e" for e
    using that by (cases e) (simp_all add: rater_defs)
  then show ?thesis
    using assms by (simp add: fetchNextPair_settled_def)
qed

theorem fetch_error_placeholders_witness:
  "0 < pendingFetch (startState 0 True) \<and>
   (\<exists>s'. step (startState 0 True) (FetchSettled None) = Some s' \<and>
      imgA_src s' = errorPlaceholder \<and> imgB_src s' = errorPlaceholder \<and>
      currentPair s' = None \<and> step s' ClickA = Some s' \<and>
      step s' (KeyDown ''ArrowLeft'') = Some s')"
proof -
  have p: "0 < pendingFetch (startState 0 True)"
    and c: "currentPair (startState 0 True) = None"
    by (simp_all add: startState_def initState_def fetchNextPair_def)
  from fetch_error_placeholders [OF p] obtain s' where
    "step (startState 0 True) (FetchSettled None) = Some s'"
    "imgA_src s' = errorPlaceholder" "imgB_src s' = errorPlaceholder"
    "currentPair s' = currentPair (startState 0 True)"
    "\<forall>e. isImageOrKey e \<longrightarrow> step s' e = Some s'"
    using c by blast
  then show ?thesis
    using p c isImageOrKey.simps(1,3) by metis
qed

text \<open>
  Claim C6 as stated fails. When the fetch after a confirmed vote fails, the pair just
  voted on is still the current pair and the lock is free, so a click on an image, under
  the error placeholder, sends a second vote on that pair; no new load came before.
\<close>

theorem vote_accepted_after_fetch_error:
  "map_option imgA_src
     (run (startState 0 True)
        [FetchSettled (Some pairOne), ClickA, VoteSettled True, FetchSettled None])
     = Some errorPlaceholder \<and>
   map_option imgB_src
     (run (startState 0 True)
        [FetchSettled (Some pairOne), ClickA, VoteSettled True, FetchSettled None])
     = Some errorPlaceholder \<and>
   map_option requests
     (run (startState 0 True)
        [FetchSettled (Some pairOne), ClickA, VoteSettled True, FetchSettled None])
     = Some [GetNextPair, PostVote ''a.jpg'' ''b.jpg'', GetNextPair] \<and>
   map_option requests
     (run (startState 0 True)
        [FetchSettled (Some pairOne), ClickA, VoteSettled True, FetchSettled None, ClickA])
     = Some [GetNextPair, PostVote ''a.jpg'' ''b.jpg'', GetNextPair,
             PostVote ''a.jpg'' ''b.jpg'']"
  by (simp add: run_defs)

subsection \<open>The counter and the history\<close>

lemma one_cycle:
  assumes "currentPair s = Some cp" and "\<not> isVoting s" and "isVoteAction e"
    and "- (2 ^ 53) \<le> totalVotes s" and "totalVotes s < 2 ^ 53"
  shows "\<exists>s'. run s [e, VoteSettled True, FetchSettled outcome] = Some s' \<and>
           currentPair s' \<noteq> None \<and> \<not> isVoting s' \<and>
           totalVotes s' = totalVotes s + 1 \<and>
           voteHistory s' = voteHistory s @ [cp]"
proof -
  from vote_accepted [OF assms(1-3)] obtain w l where
    st: "step s e = Some (s\<lparr>isVoting := True, voteHistory := voteHistory s @ [cp],
            requests := requests s @ [PostVote w l], pendingVote := pendingVote s + 1\<rparr>)"
    by blast
  then show ?thesis
    using assms(1) jsIncrement_exact [OF assms(4,5)]
    by (simp add: sendVote_settled_def fetchNextPair_def fetchNextPair_settled_def
        split: option.splits)
qed

lemma cycles_from_ready:
  assumes "currentPair s \<noteq> None" and "\<not> isVoting s"
    and "list_all (\<lambda>c. isVoteAction (fst c)) cs"
    and "- (2 ^ 53) \<le> totalVotes s" and "totalVotes s + int (length cs) \<le> 2 ^ 53"
  shows "\<exists>s'. run s (concat (map voteCycle cs)) = Some s' \<and>
           currentPair s' \<noteq> None \<and> \<not> isVoting s' \<and>
           totalVotes s' = totalVotes s + int (length cs) \<and>
           length (voteHistory s') = length (voteHistory s) + length cs"
  using assms
proof (induction cs arbitrary: s)
  case Nil
  then show ?case by simp
next
  case (Cons c cs)
  obtain e outcome where c: "c = (e, outcome)" by (cases c)
  from Cons.prems(1) obtain cp where cp: "currentPair s = Some cp" by blast
  from Cons.prems(3) c have va: "isVoteAction e" by simp
  from Cons.prems(5) have below: "totalVotes s < 2 ^ 53" by simp
  from one_cycle [OF cp Cons.prems(2) va Cons.prems(4) below, of outcome] obtain s1 where
    r1: "run s [e, VoteSettled True, FetchSettled outcome] = Some s1"
    and ready: "currentPair s1 \<noteq> None" "\<not> isVoting s1"
    and t1: "totalVotes s1 = totalVotes s + 1"
    and h1: "voteHistory s1 = voteHistory s @ [cp]"
    by blast
  from Cons.prems(3) have rest: "list_all (\<lambda>c. isVoteAction (fst c)) cs" by simp
  from Cons.prems(4,5) t1 have range: "- (2 ^ 53) \<le> totalVotes s1"
    "totalVotes s1 + int (length cs) \<le> 2 ^ 53"
    by simp_all
  from Cons.IH [OF ready rest range] obtain s' where
    r2: "run s1 (concat (map voteCycle cs)) = Some s'"
    and f: "currentPair s' \<noteq> None" "\<not> isVoting s'"
      "totalVotes s' = totalVotes s1 + int (length cs)"
      "length (voteHistory s') = length (voteHistory s1) + length cs"
    by blast
  have "run s (concat (map voteCycle (c # cs))) = Some s'"
    using r1 r2 c run_append [of s "[e, VoteSettled True, FetchSettled outcome]"]
    by (simp del: run.simps)
  with f t1 h1 show ?case by simp
qed

text \<open>
  Claim C2, as amended. Let the page load with counter value \<open>n0\<close> and the first pair
  arrive. For every sequence of successful votes (each a click or arrow key, the server's
  confirmation and the settling of the following fetch) that keeps the counter where
  JavaScript numbers count exactly, that is with \<open>n0\<close> at least \<open>- 2 ^ 53\<close> and \<open>n0\<close> plus the
  number of votes at most \<open>2 ^ 53\<close>, the run is possible and after each completed vote,
  that is for every such sequence, the history holds as many entries as there were votes
  and the vote counter equals \<open>n0\<close> plus the length of the history.
\<close>

theorem counter_is_start_plus_history:
  assumes "list_all (\<lambda>c. isVoteAction (fst c)) cs"
    and "- (2 ^ 53) \<le> n0" and "n0 + int (length cs) \<le> 2 ^ 53"
  shows "\<exists>s. run (startState n0 d0) (FetchSettled (Some p0) # concat (map voteCycle cs)) = Some s \<and>
           totalVotes s = n0 + int (length cs) \<and>
           length (voteHistory s) = length cs \<and>
           totalVotes s = n0 + int (length (voteHistory s))"
proof -
  let ?s0 = "fetchNextPair_settled (Some p0) (startState n0 d0)"
  have s0: "step (startState n0 d0) (FetchSettled (Some p0)) = Some ?s0"
    by (simp add: startState_def fetchNextPair_def)
  have ready: "currentPair ?s0 \<noteq> None" "\<not> isVoting ?s0"
    and init: "totalVotes ?s0 = n0" "voteHistory ?s0 = []"
    by (simp_all add: startState_def initState_def fetchNextPair_def fetchNextPair_settled_def)
  from assms(2,3) init(1) have range: "- (2 ^ 53) \<le> totalVotes ?s0"
    "totalVotes ?s0 + int (length cs) \<le> 2 ^ 53"
    by simp_all
  from cycles_from_ready [OF ready assms(1) range] obtain s where
    "run ?s0 (concat (map voteCycle cs)) = Some s"
    "totalVotes s = totalVotes ?s0 + int (length cs)"
    "length (voteHistory s) = length (voteHistory ?s0) + length cs"
    by blast
  with s0 init show ?thesis by simp
qed

theorem counter_is_start_plus_history_witness:
  "\<exists>s. run (startState 5 True)
       [FetchSettled (Some pairOne), ClickA, VoteSettled True, FetchSettled (Some pairTwo),
        KeyDown ''ArrowRight'', VoteSettled True, FetchSettled None] = Some s \<and>
     totalVotes s = 7 \<and> length (voteHistory s) = 2"
  using counter_is_start_plus_history
    [of "[(ClickA, Some pairTwo), (KeyDown ''ArrowRight'', None)]" 5 True pairOne]
  by (auto simp del: run.simps)

text \<open>
  Claim C2 as stated fails when the page loads with a counter other than zero. With
  five votes recorded before the page was loaded, the counter is 6 after the first
  successful vote and the history has one entry.
\<close>

theorem counter_differs_from_history_length:
  "map_option totalVotes
     (run (startState 5 True)
        [FetchSettled (Some pairOne), ClickA, VoteSettled True, FetchSettled (Some pairTwo)])
     = Some 6 \<and>
   map_option voteHistory
     (run (startState 5 True)
        [FetchSettled (Some pairOne), ClickA, VoteSettled True, FetchSettled (Some pairTwo)])
     = Some [pairOne] \<and>
   length [pairOne] = 1"
  by (simp add: run_defs)

subsection \<open>The history and the server's view\<close>

lemma ledgerInv_start: "ledgerInv (startState n0 d0) ledger0"
  by (simp add: ledgerInv_def lockInv_start ledger0_def)
    (simp add: startState_def initState_def fetchNextPair_def)

lemma noteSent_sendVote:
  assumes "ledgerInv s L" and "currentPair s = Some cp"
  shows "ledgerInv (sendVote w l s) (noteSent s (sendVote w l s) L)"
  using assms
  by (auto simp: ledgerInv_def lockInv_def noteSent_def sendVote_def)

lemma noteSent_handleUndo:
  assumes "ledgerInv s L"
  shows "ledgerInv (handleUndo s) (noteSent s (handleUndo s) L)"
  using assms
  by (auto simp: ledgerInv_def lockInv_def noteSent_def handleUndo_def split: option.splits)

lemma noteSent_same:
  "noteSent s s L = L"
  by (simp add: noteSent_def split: option.splits)

lemma ledgerInv_click:
  assumes "ledgerInv s L"
  shows "ledgerInv (wrapperA_click s) (noteSent s (wrapperA_click s) L)"
    and "ledgerInv (wrapperB_click s) (noteSent s (wrapperB_click s) L)"
  using assms noteSent_sendVote [OF assms]
  by (auto simp: wrapperA_click_def wrapperB_click_def noteSent_same split: option.splits)

lemma ledgerInv_keydown:
  assumes "ledgerInv s L"
  shows "ledgerInv (keydown key s) (noteSent s (keydown key s) L)"
  using assms noteSent_sendVote [OF assms] noteSent_handleUndo [OF assms]
  by (auto simp: keydown_def noteSent_same split: option.splits)

lemma ledgerInv_undoClick:
  assumes "ledgerInv s L"
  shows "ledgerInv (undoButton_click s) L"
  using assms
  by (auto simp: ledgerInv_def lockInv_def undoButton_click_def handleUndo_def)

lemma ledgerInv_fetchSettled:
  assumes "ledgerInv s L" and "pendingFetch s \<noteq> 0"
  shows "ledgerInv (fetchNextPair_settled outcome s) L"
  using assms
  by (auto simp: ledgerInv_def lockInv_def fetchNextPair_settled_def
      split: option.splits if_splits)

lemma awaiting_single:
  assumes "ledgerInv s L" and "pendingVote s \<noteq> 0"
  shows "\<exists>p. awaiting L = [p]" and "pendingVote s = 1" and "pendingFetch s = 0" and "isVoting s"
proof -
  from assms show one: "pendingVote s = 1" and "pendingFetch s = 0" and "isVoting s"
    by (auto simp: ledgerInv_def lockInv_def split: if_splits)
  with assms(1) have "length (awaiting L) = 1"
    by (simp add: ledgerInv_def)
  then show "\<exists>p. awaiting L = [p]"
    by (cases "awaiting L") auto
qed

lemma ledgerInv_voteSettled:
  assumes "ledgerInv s L" and "pendingVote s \<noteq> 0"
  shows "ledgerInv (sendVote_settled success s) (ledger_step s (VoteSettled success) L)"
proof -
  from awaiting_single [OF assms] obtain p where
    a: "awaiting L = [p]" and v: "pendingVote s = 1" and f: "pendingFetch s = 0"
    and l: "isVoting s"
    by blast
  from assms(1) a have h: "voteHistory s = confirmed L @ [p]"
    by (simp add: ledgerInv_def)
  show ?thesis
    using a v f l h
    by (cases success)
      (simp_all add: ledgerInv_def lockInv_def sendVote_settled_def fetchNextPair_def)
qed

lemma ledgerInv_undoSettled:
  assumes "ledgerInv s L" and "pendingUndo s \<noteq> 0" and "noOverlap s"
  shows "ledgerInv (handleUndo_settled success s) (ledger_step s (UndoSettled success) L)"
proof -
  from assms(2,3) have v: "pendingVote s = 0"
    by (simp add: noOverlap_def)
  with assms(1) have a: "awaiting L = []" and h: "voteHistory s = confirmed L"
    and k: "lockInv s"
    by (simp_all add: ledgerInv_def)
  show ?thesis
    using a h k v
    by (cases success)
      (auto simp: ledgerInv_def lockInv_def handleUndo_settled_def handleUndo_try_def
        handleUndo_finally_def)
qed

lemma ledgerInv_step:
  assumes "ledgerInv s L" and "noOverlap s" and "step s e = Some s'"
  shows "ledgerInv s' (ledger_step s e L)"
proof (cases e)
  case ClickA
  with assms ledgerInv_click(1) [OF assms(1)] show ?thesis by auto
next
  case ClickB
  with assms ledgerInv_click(2) [OF assms(1)] show ?thesis by auto
next
  case UndoClick
  with assms ledgerInv_undoClick [OF assms(1)] show ?thesis by auto
next
  case (KeyDown key)
  with assms ledgerInv_keydown [OF assms(1)] show ?thesis by auto
next
  case (FetchSettled outcome)
  with assms ledgerInv_fetchSettled [OF assms(1)] show ?thesis
    by (auto split: if_splits)
next
  case (VoteSettled success)
  with assms(3) have "pendingVote s \<noteq> 0" and "s' = sendVote_settled success s"
    by (auto split: if_splits)
  with ledgerInv_voteSettled [OF assms(1)] VoteSettled show ?thesis
    by (simp del: ledger_step.simps)
next
  case (UndoSettled success)
  with assms(3) have "pendingUndo s \<noteq> 0" and "s' = handleUndo_settled success s"
    by (auto split: if_splits)
  with ledgerInv_undoSettled [OF assms(1) _ assms(2)] UndoSettled show ?thesis
    by (simp del: ledger_step.simps)
qed

lemma ledgerInv_run:
  "ledgerInv s L \<Longrightarrow> serial s es \<Longrightarrow> runLedger s L es = Some (s', L') \<Longrightarrow> ledgerInv s' L'"
proof (induction es arbitrary: s L)
  case Nil
  then show ?case by simp
next
  case (Cons e es)
  from Cons.prems(3) obtain s1 where st: "step s e = Some s1"
    and rest: "runLedger s1 (ledger_step s e L) es = Some (s', L')"
    by (auto split: option.splits)
  from Cons.prems(2) st have no: "noOverlap s" and ser: "serial s1 es"
    by simp_all
  from Cons.IH [OF ledgerInv_step [OF Cons.prems(1) no st] ser rest] show ?case .
qed

text \<open>
  Claim C3, as amended. In every state reached by a run in which a vote request and an
  undo request are never outstanding together, the history stack is the list of the votes
  confirmed by the server and not yet undone, one entry each and in order, followed by the
  entry pushed ahead of confirmation for the vote in flight, if there is one (there is at
  most one). So whenever no vote request is in flight the history holds exactly the
  confirmed, not yet undone votes, and the entry of a vote that fails is gone once the
  failure is handled.
\<close>

theorem history_is_confirmed_votes:
  assumes "runLedger (startState n0 d0) ledger0 es = Some (s, L)"
    and "serial (startState n0 d0) es"
  shows "voteHistory s = confirmed L @ awaiting L \<and>
         length (awaiting L) = pendingVote s \<and> pendingVote s \<le> 1 \<and>
         (pendingVote s = 0 \<longrightarrow> voteHistory s = confirmed L)"
proof -
  from ledgerInv_run [OF ledgerInv_start assms(2,1)] have inv: "ledgerInv s L" .
  then have "pendingVote s \<le> 1"
    by (simp add: ledgerInv_def lockInv_def split: if_splits)
  with inv show ?thesis
    by (auto simp: ledgerInv_def)
qed

lemmas ledger_defs = ledger0_def noteSent_def noOverlap_def

theorem history_is_confirmed_votes_witness:
  "\<exists>s L. runLedger (startState 0 True) ledger0
       [FetchSettled (Some pairOne), ClickA, VoteSettled True, FetchSettled (Some pairTwo),
        ClickB, VoteSettled False, UndoClick, UndoSettled True] = Some (s, L) \<and>
     serial (startState 0 True)
       [FetchSettled (Some pairOne), ClickA, VoteSettled True, FetchSettled (Some pairTwo),
        ClickB, VoteSettled False, UndoClick, UndoSettled True] \<and>
     voteHistory s = confirmed L \<and> pendingVote s = 0"
proof -
  obtain s L where r: "runLedger (startState 0 True) ledger0
       [FetchSettled (Some pairOne), ClickA, VoteSettled True, FetchSettled (Some pairTwo),
        ClickB, VoteSettled False, UndoClick, UndoSettled True] = Some (s, L)"
    and v: "pendingVote s = 0"
    by (simp add: run_defs ledger_defs)
  have ser: "serial (startState 0 True)
       [FetchSettled (Some pairOne), ClickA, VoteSettled True, FetchSettled (Some pairTwo),
        ClickB, VoteSettled False, UndoClick, UndoSettled True]"
    by (simp add: run_defs ledger_defs)
  from history_is_confirmed_votes [OF r ser] v show ?thesis
    using r ser by (auto simp del: runLedger.simps serial.simps)
qed

text \<open>
  Claim C3 as stated fails. \<^verbatim>\<open>sendVote\<close> pushes the current pair before it sends the request,
  so while the second vote is in flight the history holds two entries and the server has
  confirmed one vote.
\<close>

theorem unconfirmed_vote_on_history:
  "map_option (voteHistory \<circ> fst)
     (runLedger (startState 0 True) ledger0
        [FetchSettled (Some pairOne), ClickA, VoteSettled True, FetchSettled (Some pairTwo),
         ClickB]) = Some [pairOne, pairTwo] \<and>
   map_option (confirmed \<circ> snd)
     (runLedger (startState 0 True) ledger0
        [FetchSettled (Some pairOne), ClickA, VoteSettled True, FetchSettled (Some pairTwo),
         ClickB]) = Some [pairOne]"
  by (simp add: run_defs ledger_defs)

end
